theory Spec2Isabelle
  imports Main "HOL-Library.Multiset" "HOL-Library.Sublist" "HOL-Library.Word"
begin

section \<open>The host\<close>

text \<open>
  The component is generic over rows \<^verbatim>\<open>T extends Record<string, any>\<close>: a cell value is
  any value of the host language, of a type \<open>'v\<close> that the model leaves open. A row
  is what reading a property of it gives, \<^verbatim>\<open>row[key]\<close> for every key, whether the
  property is the row's own or inherited, and \<open>undefined\<close> where there is none.
  Rows that read alike at every key are one row of the model.
\<close>

type_synonym 'v row = "string \<Rightarrow> 'v"

text \<open>
  What the source takes from the host is a parameter of the model: the relational
  operators \<^verbatim>\<open><\<close> and \<^verbatim>\<open>></\<close> on values, the truthiness of a value (behind \<^verbatim>\<open>||\<close>),
  \<^verbatim>\<open>String(v)\<close>, the values \<open>undefined\<close> and \<open>null\<close>, and \<^verbatim>\<open>Array.prototype.sort\<close> on a
  copy of an array of rows with a comparator. They are functions of their operands,
  as the host's operations are on primitive values and on objects whose conversion
  has no side effect. The theorems hold for every host, so for whatever these
  operations answer on the values at hand.
\<close>

record 'v host =
  js_lt :: "'v \<Rightarrow> 'v \<Rightarrow> bool"
  js_gt :: "'v \<Rightarrow> 'v \<Rightarrow> bool"
  ToBoolean :: "'v \<Rightarrow> bool"
  ToString :: "'v \<Rightarrow> string"
  js_undefined :: 'v
  js_null :: 'v
  Array_sort :: "('v row \<Rightarrow> 'v row \<Rightarrow> int) \<Rightarrow> 'v row list \<Rightarrow> 'v row list"

subsection \<open>What the language standard requires of the sort\<close>

text \<open>
  The host's sort calls the comparator; a result below 0 puts the first argument first.
  A comparator is consistent on the elements sorted when it is reflexive and symmetric
  where it answers 0 and transitive in each of its three answers.
\<close>

definition consistent_comparator :: "('a \<Rightarrow> 'a \<Rightarrow> int) \<Rightarrow> 'a list \<Rightarrow> bool" where
  "consistent_comparator cmp xs =
     (\<forall>a\<in>set xs. cmp a a = 0 \<and>
        (\<forall>b\<in>set xs. (cmp a b = 0 \<longrightarrow> cmp b a = 0) \<and>
           (\<forall>c\<in>set xs.
              (cmp a b = 0 \<and> cmp b c = 0 \<longrightarrow> cmp a c = 0) \<and>
              (cmp a b < 0 \<and> cmp b c < 0 \<longrightarrow> cmp a c < 0) \<and>
              (cmp a b > 0 \<and> cmp b c > 0 \<longrightarrow> cmp a c > 0))))"

text \<open>
  The standard fixes the result for a consistent comparator only: a permutation of the
  elements, in the comparator's order, in which elements that compare equal keep
  their original order (the sort is stable). For any other comparator the order of
  the result is left to the implementation, and nothing is required here.
\<close>

definition sorts_as_required ::
    "(('a \<Rightarrow> 'a \<Rightarrow> int) \<Rightarrow> 'a list \<Rightarrow> 'a list) \<Rightarrow> bool" where
  "sorts_as_required srt =
     (\<forall>cmp xs. consistent_comparator cmp xs \<longrightarrow>
        mset (srt cmp xs) = mset xs \<and>
        sorted_wrt (\<lambda>a b. cmp a b \<le> 0) (srt cmp xs) \<and>
        (\<forall>r\<in>set xs. filter (\<lambda>x. cmp r x = 0) (srt cmp xs) = filter (\<lambda>x. cmp r x = 0) xs))"

section \<open>The sort engine\<close>

datatype direction = Asc | Desc

record sort_config =
  key :: "string option"
  direction :: direction

text \<open>The comparator of \<^verbatim>\<open>sortedData\<close>, for the key \<open>k\<close> and the direction \<open>d\<close>.\<close>

definition compareRows :: "'v host \<Rightarrow> string \<Rightarrow> direction \<Rightarrow> 'v row \<Rightarrow> 'v row \<Rightarrow> int" where
  "compareRows h k d a b =
     (let aValue = a k; bValue = b k in
      if js_lt h aValue bValue then (if d = Asc then - 1 else 1)
      else if js_gt h aValue bValue then (if d = Asc then 1 else - 1)
      else 0)"

text \<open>
  \<^verbatim>\<open>if (!sortConfig.key) return data\<close>: the key is falsy when it is null or the empty
  string. Otherwise a copy of the data is sorted by the host.
\<close>

definition sortedData :: "'v host \<Rightarrow> 'v row list \<Rightarrow> sort_config \<Rightarrow> 'v row list" where
  "sortedData h data cfg =
     (case key cfg of
        None \<Rightarrow> data
      | Some k \<Rightarrow> if k = [] then data else Array_sort h (compareRows h k (direction cfg)) data)"

definition handleSort :: "string \<Rightarrow> sort_config \<Rightarrow> sort_config" where
  "handleSort k prev =
     \<lparr>key = Some k,
      direction = (if key prev = Some k \<and> direction prev = Asc then Desc else Asc)\<rparr>"

text \<open>
  Two rows tie at \<open>k\<close> when the comparator answers 0 for them (in either direction):
  neither \<^verbatim>\<open><\<close> nor \<^verbatim>\<open>></\<close> holds of their values.
\<close>

definition ties :: "'v host \<Rightarrow> string \<Rightarrow> 'v row \<Rightarrow> 'v row \<Rightarrow> bool" where
  "ties h k a b = (\<not> js_lt h (a k) (b k) \<and> \<not> js_gt h (a k) (b k))"

text \<open>
  The values of a data sequence at \<open>k\<close> are mutually comparable when the comparator
  of \<^verbatim>\<open>sortedData\<close> is consistent on its rows. No two rows tie when the comparator
  answers 0 for no two positions.
\<close>

definition comparable_at :: "'v host \<Rightarrow> string \<Rightarrow> 'v row list \<Rightarrow> bool" where
  "comparable_at h k rows = consistent_comparator (compareRows h k Asc) rows"

definition no_ties :: "'v host \<Rightarrow> string \<Rightarrow> 'v row list \<Rightarrow> bool" where
  "no_ties h k rows = sorted_wrt (\<lambda>a b. \<not> ties h k a b) rows"

section \<open>The component\<close>

text \<open>
  A column descriptor. The custom renderer returns a display fragment of the
  rendering framework, of an arbitrary type \<open>'n\<close>; \<open>sortable\<close> unset is false.
\<close>

record ('v, 'n) column =
  column_key :: string
  title :: string
  sortable :: bool
  width :: "string option"
  render :: "('v \<Rightarrow> 'v row \<Rightarrow> 'n) option"

text \<open>
  The properties after destructuring (\<^verbatim>\<open>loading\<close> and \<^verbatim>\<open>selectable\<close> default to false).
  \<open>onRowSelect\<close> says whether the optional callback was supplied; the payloads it is
  invoked with are recorded in the field \<open>calls\<close> of the state, oldest first.
\<close>

record ('v, 'n) props =
  data :: "'v row list"
  columns :: "('v, 'n) column list"
  loading :: bool
  selectable :: bool
  onRowSelect :: bool
  className :: string
  emptyMessage :: "string option"

record 'v state =
  selectedRows :: "nat set"
  sortConfig :: sort_config
  calls :: "'v row list list"

definition initial_state :: "'v state" where
  "initial_state = \<lparr>selectedRows = {}, sortConfig = \<lparr>key = None, direction = Asc\<rparr>, calls = []\<rparr>"

text \<open>\<^verbatim>\<open>onRowSelect?.(payload)\<close>\<close>

definition call_onRowSelect :: "('v, 'n) props \<Rightarrow> 'v row list \<Rightarrow> 'v state \<Rightarrow> 'v state" where
  "call_onRowSelect p payload s = (if onRowSelect p then s\<lparr>calls := calls s @ [payload]\<rparr> else s)"

text \<open>\<^verbatim>\<open>onClick={() => column.sortable && handleSort(column.key)}\<close>\<close>

definition header_onClick :: "('v, 'n) column \<Rightarrow> 'v state \<Rightarrow> 'v state" where
  "header_onClick col s =
     (if sortable col then s\<lparr>sortConfig := handleSort (column_key col) (sortConfig s)\<rparr> else s)"

text \<open>\<^verbatim>\<open>xs.filter((x, i) => P(x, i))\<close>\<close>

definition filter_index :: "('a \<Rightarrow> nat \<Rightarrow> bool) \<Rightarrow> 'a list \<Rightarrow> 'a list" where
  "filter_index P xs = map fst (filter (\<lambda>(x, i). P x i) (zip xs [0..<length xs]))"

definition handleSelectAll :: "('v, 'n) props \<Rightarrow> bool \<Rightarrow> 'v state \<Rightarrow> 'v state" where
  "handleSelectAll p checked s =
     (if checked then
        (let allIndices = set (map snd (zip (data p) [0..<length (data p)]))
         in call_onRowSelect p (data p) (s\<lparr>selectedRows := allIndices\<rparr>))
      else call_onRowSelect p [] (s\<lparr>selectedRows := {}\<rparr>))"

definition handleSelectRow :: "('v, 'n) props \<Rightarrow> nat \<Rightarrow> bool \<Rightarrow> 'v state \<Rightarrow> 'v state" where
  "handleSelectRow p index checked s =
     (let newSelectedRows =
            (if checked then insert index (selectedRows s) else selectedRows s - {index});
          selectedData = filter_index (\<lambda>_ i. i \<in> newSelectedRows) (data p)
      in call_onRowSelect p selectedData (s\<lparr>selectedRows := newSelectedRows\<rparr>))"

text \<open>Toggling a list of positions on, one event after the other.\<close>

definition select_rows :: "('v, 'n) props \<Rightarrow> nat list \<Rightarrow> 'v state \<Rightarrow> 'v state" where
  "select_rows p ps s = foldl (\<lambda>s' i. handleSelectRow p i True s') s ps"

subsection \<open>Rendering\<close>

datatype sort_icon = Unsorted | Ascending | Descending

definition getSortIcon :: "sort_config \<Rightarrow> string \<Rightarrow> sort_icon" where
  "getSortIcon cfg k =
     (if key cfg \<noteq> Some k then Unsorted
      else if direction cfg = Asc then Ascending else Descending)"

datatype 'n fragment = Text string | Node 'n

text \<open>
  \<^verbatim>\<open>v || ''\<close> is the value \<open>v\<close> when it is truthy and the string \<^verbatim>\<open>''\<close> otherwise;
  \<^verbatim>\<open>String\<close> of a string is the string itself.
\<close>

datatype 'v or_string = Value 'v | Str string

definition js_or :: "'v host \<Rightarrow> 'v \<Rightarrow> string \<Rightarrow> 'v or_string" where
  "js_or h v s = (if ToBoolean h v then Value v else Str s)"

fun String_of :: "'v host \<Rightarrow> 'v or_string \<Rightarrow> string" where
  "String_of h (Value v) = ToString h v"
| "String_of h (Str s) = s"

text \<open>
  \<^verbatim>\<open>column.render ? column.render(row[column.key], row) : String(row[column.key] || '')\<close>
\<close>

definition renderCell :: "'v host \<Rightarrow> ('v, 'n) column \<Rightarrow> 'v row \<Rightarrow> 'n fragment" where
  "renderCell h col r =
     (case render col of
        Some f \<Rightarrow> Node (f (r (column_key col)) r)
      | None \<Rightarrow> Text (String_of h (js_or h (r (column_key col)) [])))"

record header_cell =
  header_title :: string
  header_icon :: "sort_icon option"

record 'n body_row =
  row_selected :: bool
  row_checkbox :: "bool option"
  cells :: "'n fragment list"

datatype 'n view =
    LoadingSkeleton "nat list"
  | EmptyState string
  | Table "bool option" "header_cell list" "'n body_row list"

definition renderHeader :: "sort_config \<Rightarrow> ('v, 'n) column \<Rightarrow> header_cell" where
  "renderHeader cfg col =
     \<lparr>header_title = title col,
      header_icon = (if sortable col then Some (getSortIcon cfg (column_key col)) else None)\<rparr>"

definition renderRow ::
    "'v host \<Rightarrow> ('v, 'n) props \<Rightarrow> 'v state \<Rightarrow> 'v row \<times> nat \<Rightarrow> 'n body_row" where
  "renderRow h p s = (\<lambda>(r, index).
     \<lparr>row_selected = (index \<in> selectedRows s),
      row_checkbox = (if selectable p then Some (index \<in> selectedRows s) else None),
      cells = map (\<lambda>col. renderCell h col r) (columns p)\<rparr>)"

text \<open>
  The render function. The loading skeleton maps over \<^verbatim>\<open>[...Array(5)]\<close>, one
  placeholder row per index; the populated state maps over the sorted data.
\<close>

definition DataTable :: "'v host \<Rightarrow> ('v, 'n) props \<Rightarrow> 'v state \<Rightarrow> 'n view" where
  "DataTable h p s =
     (if loading p then LoadingSkeleton (map (\<lambda>i. i) [0..<5])
      else if length (data p) = 0 then
        EmptyState (case emptyMessage p of None \<Rightarrow> ''No data available'' | Some m \<Rightarrow> m)
      else
        (let rows = sortedData h (data p) (sortConfig s) in
         Table
           (if selectable p
            then Some (card (selectedRows s) = length (data p) \<and> length (data p) > 0)
            else None)
           (map (renderHeader (sortConfig s)) (columns p))
           (map (renderRow h p s) (zip rows [0..<length rows]))))"

section \<open>A host\<close>

text \<open>
  An instance of the host, for the examples: the values undefined, null, the booleans
  and the numbers that are integers from 0 to \<open>2^32 - 1\<close>. On these values the host
  compares after conversion to a number (undefined converts to NaN, which is neither
  below nor above anything; null to 0; false and true to 0 and 1), the falsy values
  are undefined, null, false and 0, and a number prints in plain decimal.
\<close>

datatype jsval = JUndefined | JNull | JBool bool | JNumber "32 word"

fun ToNumber :: "jsval \<Rightarrow> 32 word option" where
  "ToNumber JUndefined = None"
| "ToNumber JNull = Some 0"
| "ToNumber (JBool b) = Some (if b then 1 else 0)"
| "ToNumber (JNumber n) = Some n"

definition IsLessThan :: "jsval \<Rightarrow> jsval \<Rightarrow> bool option" where
  "IsLessThan x y =
     (case (ToNumber x, ToNumber y) of
        (Some m, Some n) \<Rightarrow> Some (m < n)
      | _ \<Rightarrow> None)"

fun jsval_ToBoolean :: "jsval \<Rightarrow> bool" where
  "jsval_ToBoolean JUndefined = False"
| "jsval_ToBoolean JNull = False"
| "jsval_ToBoolean (JBool b) = b"
| "jsval_ToBoolean (JNumber n) = (n \<noteq> 0)"

definition digit_char :: "nat \<Rightarrow> char" where
  "digit_char d = ''0123456789'' ! d"

fun digits_of :: "nat \<Rightarrow> string" where
  "digits_of n =
     (if n < 10 then [digit_char n]
      else digits_of (n div 10) @ [digit_char (n mod 10)])"

declare digits_of.simps [simp del]

fun jsval_ToString :: "jsval \<Rightarrow> string" where
  "jsval_ToString JUndefined = ''undefined''"
| "jsval_ToString JNull = ''null''"
| "jsval_ToString (JBool b) = (if b then ''true'' else ''false'')"
| "jsval_ToString (JNumber n) = digits_of (unat n)"

text \<open>
  The sort of the V8 engine for an array of fewer than 64 elements: the run that
  starts the array is counted, non-descending or strictly descending as its first two
  elements are, and reversed when descending; every later element is then placed in
  the sorted part before it by binary insertion. (A longer array is cut into such runs
  that are merged; this instance does not go that far.)
\<close>

fun take_run :: "bool \<Rightarrow> ('a \<Rightarrow> 'a \<Rightarrow> int) \<Rightarrow> 'a \<Rightarrow> 'a list \<Rightarrow> 'a list \<times> 'a list" where
  "take_run descending cmp previous [] = ([], [])"
| "take_run descending cmp previous (x # xs) =
     (if (cmp x previous < 0) = descending
      then (let (run, rest) = take_run descending cmp x xs in (x # run, rest))
      else ([], x # xs))"

fun CountAndMakeRun :: "('a \<Rightarrow> 'a \<Rightarrow> int) \<Rightarrow> 'a list \<Rightarrow> 'a list \<times> 'a list" where
  "CountAndMakeRun cmp [] = ([], [])"
| "CountAndMakeRun cmp [x] = ([x], [])"
| "CountAndMakeRun cmp (x # y # xs) =
     (let descending = (cmp y x < 0);
          (run, rest) = take_run descending cmp x (y # xs)
      in (if descending then rev (x # run) else x # run, rest))"

function binary_search :: "('a \<Rightarrow> 'a \<Rightarrow> int) \<Rightarrow> 'a \<Rightarrow> 'a list \<Rightarrow> nat \<Rightarrow> nat \<Rightarrow> nat" where
  "binary_search cmp pivot ws left right =
     (if left < right then
        (let mid = left + (right - left) div 2 in
         if cmp pivot (ws ! mid) < 0 then binary_search cmp pivot ws left mid
         else binary_search cmp pivot ws (mid + 1) right)
      else left)"
  by pat_completeness auto
termination
  by (relation "measure (\<lambda>(cmp, pivot, ws, left, right). right - left)") auto

declare binary_search.simps [simp del]

definition insert_pivot :: "('a \<Rightarrow> 'a \<Rightarrow> int) \<Rightarrow> 'a list \<Rightarrow> 'a \<Rightarrow> 'a list" where
  "insert_pivot cmp ws pivot =
     (let left = binary_search cmp pivot ws 0 (length ws)
      in take left ws @ pivot # drop left ws)"

definition BinaryInsertionSort :: "('a \<Rightarrow> 'a \<Rightarrow> int) \<Rightarrow> 'a list \<Rightarrow> 'a list \<Rightarrow> 'a list" where
  "BinaryInsertionSort cmp run rest = foldl (insert_pivot cmp) run rest"

definition short_array_sort :: "('a \<Rightarrow> 'a \<Rightarrow> int) \<Rightarrow> 'a list \<Rightarrow> 'a list" where
  "short_array_sort cmp xs =
     (let (run, rest) = CountAndMakeRun cmp xs in BinaryInsertionSort cmp run rest)"

definition v8_host :: "jsval host" where
  "v8_host =
     \<lparr>js_lt = (\<lambda>a b. IsLessThan a b = Some True),
      js_gt = (\<lambda>a b. IsLessThan b a = Some True),
      ToBoolean = jsval_ToBoolean,
      ToString = jsval_ToString,
      js_undefined = JUndefined,
      js_null = JNull,
      Array_sort = short_array_sort\<rparr>"

text \<open>
  The rows of the examples: an object with the listed properties, of which reading
  any other key gives undefined. (The examples read listed keys, and the key \<open>v\<close> of
  an object without it.)
\<close>

definition obj :: "(string \<times> jsval) list \<Rightarrow> jsval row" where
  "obj ps k = (case map_of ps k of Some v \<Rightarrow> v | None \<Rightarrow> JUndefined)"

section \<open>Consistent comparators\<close>

lemma consistent_refl: "consistent_comparator cmp xs \<Longrightarrow> a \<in> set xs \<Longrightarrow> cmp a a = 0"
  unfolding consistent_comparator_def by blast

lemma consistent_sym: "consistent_comparator cmp xs \<Longrightarrow> a \<in> set xs \<Longrightarrow> b \<in> set xs \<Longrightarrow> cmp a b = 0 \<Longrightarrow> cmp b a = 0"
  unfolding consistent_comparator_def by blast

lemma consistent_trans_eq: "consistent_comparator cmp xs \<Longrightarrow> a \<in> set xs \<Longrightarrow> b \<in> set xs \<Longrightarrow> c \<in> set xs \<Longrightarrow> cmp a b = 0 \<Longrightarrow> cmp b c = 0 \<Longrightarrow> cmp a c = 0"
  unfolding consistent_comparator_def by blast

lemma consistent_trans_lt: "consistent_comparator cmp xs \<Longrightarrow> a \<in> set xs \<Longrightarrow> b \<in> set xs \<Longrightarrow> c \<in> set xs \<Longrightarrow> cmp a b < 0 \<Longrightarrow> cmp b c < 0 \<Longrightarrow> cmp a c < 0"
  unfolding consistent_comparator_def by blast

lemma consistent_trans_gt: "consistent_comparator cmp xs \<Longrightarrow> a \<in> set xs \<Longrightarrow> b \<in> set xs \<Longrightarrow> c \<in> set xs \<Longrightarrow> cmp a b > 0 \<Longrightarrow> cmp b c > 0 \<Longrightarrow> cmp a c > 0"
  unfolding consistent_comparator_def by blast

lemma consistent_gt_flip:
  assumes "consistent_comparator cmp xs" "a \<in> set xs" "b \<in> set xs" "cmp a b > 0"
  shows "cmp b a < 0"
proof -
  have "cmp b a \<noteq> 0"
    using consistent_sym [OF assms(1) assms(3) assms(2)] assms(4) by auto
  moreover have "\<not> cmp b a > 0"
  proof
    assume "cmp b a > 0"
    then have "cmp a a > 0"
      using consistent_trans_gt [OF assms(1) assms(2) assms(3) assms(2)] assms(4) by simp
    then show False
      using consistent_refl [OF assms(1) assms(2)] by simp
  qed
  ultimately show ?thesis by linarith
qed

lemma consistent_lt_flip:
  assumes "consistent_comparator cmp xs" "a \<in> set xs" "b \<in> set xs" "cmp a b < 0"
  shows "cmp b a > 0"
proof -
  have "cmp b a \<noteq> 0"
    using consistent_sym [OF assms(1) assms(3) assms(2)] assms(4) by auto
  moreover have "\<not> cmp b a < 0"
  proof
    assume "cmp b a < 0"
    then have "cmp a a < 0"
      using consistent_trans_lt [OF assms(1) assms(2) assms(3) assms(2)] assms(4) by simp
    then show False
      using consistent_refl [OF assms(1) assms(2)] by simp
  qed
  ultimately show ?thesis by linarith
qed

lemma consistent_lt_eq:
  assumes con: "consistent_comparator cmp xs" and a: "a \<in> set xs" and b: "b \<in> set xs"
    and c: "c \<in> set xs" and ab: "cmp a b < 0" and bc: "cmp b c = 0"
  shows "cmp a c < 0"
proof -
  have "cmp a c \<noteq> 0"
  proof
    assume "cmp a c = 0"
    moreover have "cmp c b = 0" by (rule consistent_sym [OF con b c bc])
    ultimately have "cmp a b = 0" by (rule consistent_trans_eq [OF con a c b])
    with ab show False by simp
  qed
  moreover have "\<not> cmp a c > 0"
  proof
    assume "cmp a c > 0"
    then have "cmp c a < 0" by (rule consistent_gt_flip [OF con a c])
    then have "cmp c b < 0" using ab by (rule consistent_trans_lt [OF con c a b])
    moreover have "cmp c b = 0" by (rule consistent_sym [OF con b c bc])
    ultimately show False by simp
  qed
  ultimately show ?thesis by linarith
qed

lemma consistent_eq_lt:
  assumes con: "consistent_comparator cmp xs" and a: "a \<in> set xs" and b: "b \<in> set xs"
    and c: "c \<in> set xs" and ab: "cmp a b = 0" and bc: "cmp b c < 0"
  shows "cmp a c < 0"
proof -
  have "cmp a c \<noteq> 0"
  proof
    assume "cmp a c = 0"
    moreover have "cmp b a = 0" by (rule consistent_sym [OF con a b ab])
    ultimately have "cmp b c = 0" by (rule consistent_trans_eq [OF con b a c, rotated])
    with bc show False by simp
  qed
  moreover have "\<not> cmp a c > 0"
  proof
    assume "cmp a c > 0"
    then have "cmp c a < 0" by (rule consistent_gt_flip [OF con a c])
    with bc have "cmp b a < 0" by (rule consistent_trans_lt [OF con b c a])
    moreover have "cmp b a = 0" by (rule consistent_sym [OF con a b ab])
    ultimately show False by simp
  qed
  ultimately show ?thesis by linarith
qed

lemma consistent_trans_le:
  assumes con: "consistent_comparator cmp xs" and a: "a \<in> set xs" and b: "b \<in> set xs"
    and c: "c \<in> set xs" and ab: "cmp a b \<le> 0" and bc: "cmp b c \<le> 0"
  shows "cmp a c \<le> 0"
proof -
  consider "cmp a b < 0" "cmp b c < 0" | "cmp a b < 0" "cmp b c = 0"
    | "cmp a b = 0" "cmp b c < 0" | "cmp a b = 0" "cmp b c = 0"
    using ab bc by linarith
  then show ?thesis
  proof cases
    case 1
    then show ?thesis using consistent_trans_lt [OF con a b c] by simp
  next
    case 2
    then show ?thesis using consistent_lt_eq [OF con a b c] by simp
  next
    case 3
    then show ?thesis using consistent_eq_lt [OF con a b c] by simp
  next
    case 4
    then show ?thesis using consistent_trans_eq [OF con a b c] by simp
  qed
qed

lemma consistent_subset:
  "consistent_comparator cmp xs \<Longrightarrow> set ys \<subseteq> set xs \<Longrightarrow> consistent_comparator cmp ys"
  unfolding consistent_comparator_def by blast

lemma sorted_stable_unique:
  assumes "consistent_comparator cmp ys"
    and "set zs = set ys"
    and "sorted_wrt (\<lambda>a b. cmp a b \<le> 0) ys"
    and "sorted_wrt (\<lambda>a b. cmp a b \<le> 0) zs"
    and "\<forall>r\<in>set ys. filter (\<lambda>x. cmp r x = 0) zs = filter (\<lambda>x. cmp r x = 0) ys"
  shows "zs = ys"
  using assms
proof (induction ys arbitrary: zs)
  case Nil
  then show ?case by simp
next
  case (Cons y ys)
  then obtain z zs' where zs: "zs = z # zs'" by (cases zs) auto
  have con: "consistent_comparator cmp (y # ys)" by (rule Cons.prems(1))
  have yy: "cmp y y = 0" using con by (simp add: consistent_refl)
  have z_in: "z \<in> set (y # ys)" using Cons.prems(2) zs by auto
  have y_in: "y \<in> set (z # zs')" using Cons.prems(2) zs by auto
  have "cmp y z \<le> 0"
    using z_in Cons.prems(3) yy by auto
  moreover have "cmp z y \<le> 0"
  proof (cases "y = z")
    case True
    then show ?thesis using yy by simp
  next
    case False
    then have "y \<in> set zs'" using y_in by simp
    then show ?thesis using Cons.prems(4) zs by simp
  qed
  ultimately have yz: "cmp y z = 0"
    using consistent_lt_flip [OF con _ z_in, of y] by fastforce
  have "filter (\<lambda>x. cmp y x = 0) zs = filter (\<lambda>x. cmp y x = 0) (y # ys)"
    using Cons.prems(5) by simp
  then have eq: "z = y" using yz yy zs by simp
  have tails: "filter (\<lambda>x. cmp r x = 0) zs' = filter (\<lambda>x. cmp r x = 0) ys"
    if "r \<in> set (y # ys)" for r
  proof -
    have "filter (\<lambda>x. cmp r x = 0) (y # zs') = filter (\<lambda>x. cmp r x = 0) (y # ys)"
      using Cons.prems(5) that zs eq by blast
    then show ?thesis by (simp split: if_splits)
  qed
  have sets: "set zs' = set ys"
  proof (intro set_eqI iffI)
    fix a assume a: "a \<in> set zs'"
    then have a_in: "a \<in> set (y # ys)" using Cons.prems(2) zs by auto
    then have "cmp a a = 0" using con by (rule consistent_refl [rotated])
    then have "a \<in> set (filter (\<lambda>x. cmp a x = 0) zs')" using a by simp
    then have "a \<in> set (filter (\<lambda>x. cmp a x = 0) ys)" using tails [OF a_in] by simp
    then show "a \<in> set ys" by simp
  next
    fix a assume a: "a \<in> set ys"
    then have a_in: "a \<in> set (y # ys)" by simp
    then have "cmp a a = 0" using con by (rule consistent_refl [rotated])
    then have "a \<in> set (filter (\<lambda>x. cmp a x = 0) ys)" using a by simp
    then have "a \<in> set (filter (\<lambda>x. cmp a x = 0) zs')" using tails [OF a_in] by simp
    then show "a \<in> set zs'" by simp
  qed
  have "zs' = ys"
  proof (rule Cons.IH)
    show "consistent_comparator cmp ys"
      by (rule consistent_subset [OF con]) auto
    show "set zs' = set ys" by (rule sets)
    show "sorted_wrt (\<lambda>a b. cmp a b \<le> 0) ys" using Cons.prems(3) by simp
    show "sorted_wrt (\<lambda>a b. cmp a b \<le> 0) zs'" using Cons.prems(4) zs by simp
    show "\<forall>r\<in>set ys. filter (\<lambda>x. cmp r x = 0) zs' = filter (\<lambda>x. cmp r x = 0) ys"
      using tails by simp
  qed
  then show ?case using zs eq by simp
qed

lemma consistent_le_flip:
  assumes "consistent_comparator cmp xs" "a \<in> set xs" "b \<in> set xs" "cmp a b \<le> 0"
  shows "cmp b a \<ge> 0"
  using consistent_lt_flip [OF assms(1,2,3)] consistent_sym [OF assms(1,2,3)] assms(4)
  by (cases "cmp a b < 0") auto

lemma consistent_ge_flip:
  assumes "consistent_comparator cmp xs" "a \<in> set xs" "b \<in> set xs" "cmp a b \<ge> 0"
  shows "cmp b a \<le> 0"
  using consistent_gt_flip [OF assms(1,2,3)] consistent_sym [OF assms(1,2,3)] assms(4)
  by (cases "cmp a b > 0") auto

lemma consistent_lt_le:
  assumes con: "consistent_comparator cmp xs" and a: "a \<in> set xs" and b: "b \<in> set xs"
    and c: "c \<in> set xs" and ab: "cmp a b < 0" and bc: "cmp b c \<le> 0"
  shows "cmp a c < 0"
  using consistent_trans_lt [OF con a b c] consistent_lt_eq [OF con a b c] ab bc
  by (cases "cmp b c < 0") auto

section \<open>The sort of the host instance meets the requirement\<close>

text \<open>The run that starts the array.\<close>

lemma filter_rev_at_most_one:
  "sorted_wrt (\<lambda>a b. \<not> (P a \<and> P b)) xs \<Longrightarrow> filter P (rev xs) = filter P xs"
proof (induction xs)
  case Nil
  then show ?case by simp
next
  case (Cons x xs)
  show ?case
  proof (cases "P x")
    case True
    then have "\<forall>y\<in>set xs. \<not> P y" using Cons.prems by auto
    then have "filter P xs = []" "filter P (rev xs) = []"
      by (simp_all add: filter_empty_conv)
    with True show ?thesis by simp
  next
    case False
    then show ?thesis using Cons by simp
  qed
qed

lemma take_run_append:
  "take_run d cmp prev xs = (run, rest) \<Longrightarrow> run @ rest = xs"
proof (induction xs arbitrary: prev run rest)
  case Nil
  then show ?case by simp
next
  case (Cons x xs)
  show ?case
  proof (cases "(cmp x prev < 0) = d")
    case True
    obtain run' rest' where r: "take_run d cmp x xs = (run', rest')"
      by (cases "take_run d cmp x xs")
    with True Cons.prems have "run = x # run'" "rest = rest'" by auto
    with Cons.IH [OF r] show ?thesis by simp
  next
    case False
    with Cons.prems show ?thesis by auto
  qed
qed

lemma take_run_successively:
  "take_run d cmp prev xs = (run, rest) \<Longrightarrow>
   successively (\<lambda>a b. (cmp b a < 0) = d) (prev # run)"
proof (induction xs arbitrary: prev run rest)
  case Nil
  then show ?case by simp
next
  case (Cons x xs)
  show ?case
  proof (cases "(cmp x prev < 0) = d")
    case True
    obtain run' rest' where r: "take_run d cmp x xs = (run', rest')"
      by (cases "take_run d cmp x xs")
    with True Cons.prems have "run = x # run'" by auto
    with Cons.IH [OF r] True show ?thesis by simp
  next
    case False
    with Cons.prems show ?thesis by auto
  qed
qed

lemma ascending_run_sorted:
  assumes con: "consistent_comparator cmp S" and sub: "set zs \<subseteq> set S"
    and suc: "successively (\<lambda>a b. \<not> cmp b a < 0) zs"
  shows "sorted_wrt (\<lambda>a b. cmp a b \<le> 0) zs"
proof -
  have "successively (\<lambda>a b. cmp a b \<le> 0) zs"
  proof (rule successively_mono [OF suc])
    fix x y assume "x \<in> set zs" "y \<in> set zs" "\<not> cmp y x < 0"
    then show "cmp x y \<le> 0"
      using consistent_ge_flip [OF con, of y x] sub by auto
  qed
  moreover have "successively (\<lambda>a b. cmp a b \<le> 0) zs = sorted_wrt (\<lambda>a b. cmp a b \<le> 0) zs"
  proof (rule successively_iff_sorted_wrt_strong)
    fix x y z assume "x \<in> set zs" "y \<in> set zs" "z \<in> set zs" "cmp x y \<le> 0" "cmp y z \<le> 0"
    then show "cmp x z \<le> 0"
      using consistent_trans_le [OF con, of x y z] sub by auto
  qed
  ultimately show ?thesis by simp
qed

lemma descending_run_sorted:
  assumes con: "consistent_comparator cmp S" and sub: "set zs \<subseteq> set S"
    and suc: "successively (\<lambda>a b. cmp b a < 0) zs"
  shows "sorted_wrt (\<lambda>a b. cmp b a < 0) zs"
proof -
  have "successively (\<lambda>a b. cmp b a < 0) zs = sorted_wrt (\<lambda>a b. cmp b a < 0) zs"
  proof (rule successively_iff_sorted_wrt_strong)
    fix x y z assume "x \<in> set zs" "y \<in> set zs" "z \<in> set zs" "cmp y x < 0" "cmp z y < 0"
    then show "cmp z x < 0"
      using consistent_trans_lt [OF con, of z y x] sub by auto
  qed
  then show ?thesis using suc by simp
qed

lemma descending_run_reversed:
  assumes con: "consistent_comparator cmp S" and sub: "set zs \<subseteq> set S"
    and suc: "successively (\<lambda>a b. cmp b a < 0) zs"
  shows "sorted_wrt (\<lambda>a b. cmp a b \<le> 0) (rev zs)"
    and "r \<in> set S \<Longrightarrow> filter (\<lambda>x. cmp r x = 0) (rev zs) = filter (\<lambda>x. cmp r x = 0) zs"
proof -
  have desc: "sorted_wrt (\<lambda>a b. cmp b a < 0) zs"
    using con sub suc by (rule descending_run_sorted)
  then have "sorted_wrt (\<lambda>a b. cmp a b < 0) (rev zs)"
    by (simp add: sorted_wrt_rev)
  then show "sorted_wrt (\<lambda>a b. cmp a b \<le> 0) (rev zs)"
    by (rule sorted_wrt_mono_rel [rotated]) simp
  show "filter (\<lambda>x. cmp r x = 0) (rev zs) = filter (\<lambda>x. cmp r x = 0) zs" if r: "r \<in> set S"
  proof (rule filter_rev_at_most_one, rule sorted_wrt_mono_rel [OF _ desc])
    fix x y assume x: "x \<in> set zs" and y: "y \<in> set zs" and lt: "cmp y x < 0"
    show "\<not> (cmp r x = 0 \<and> cmp r y = 0)"
    proof
      assume h: "cmp r x = 0 \<and> cmp r y = 0"
      have xs: "x \<in> set S" and ys: "y \<in> set S" using x y sub by auto
      have "cmp y r = 0" using consistent_sym [OF con r ys] h by simp
      then have "cmp y x = 0" using consistent_trans_eq [OF con ys r xs] h by simp
      with lt show False by simp
    qed
  qed
qed

lemma CountAndMakeRun_correct:
  assumes con: "consistent_comparator cmp S" and sub: "set xs \<subseteq> set S"
    and run: "CountAndMakeRun cmp xs = (run, rest)"
  shows "mset run + mset rest = mset xs"
    and "sorted_wrt (\<lambda>a b. cmp a b \<le> 0) run"
    and "r \<in> set S \<Longrightarrow>
         filter (\<lambda>x. cmp r x = 0) (run @ rest) = filter (\<lambda>x. cmp r x = 0) xs"
proof -
  have all: "mset run + mset rest = mset xs \<and> sorted_wrt (\<lambda>a b. cmp a b \<le> 0) run \<and>
      (r \<in> set S \<longrightarrow> filter (\<lambda>x. cmp r x = 0) (run @ rest) = filter (\<lambda>x. cmp r x = 0) xs)"
  proof (cases "\<exists>x y ys. xs = x # y # ys")
    case False
    then have "xs = [] \<or> (\<exists>x. xs = [x])"
      by (cases xs rule: CountAndMakeRun.cases [of "(cmp, _)"]) auto
    then show ?thesis using run by auto
  next
    case True
    then obtain x y ys where xs: "xs = x # y # ys" by blast
    obtain run' rest' where t: "take_run (cmp y x < 0) cmp x (y # ys) = (run', rest')"
      by (cases "take_run (cmp y x < 0) cmp x (y # ys)")
    have app: "run' @ rest' = y # ys" using t by (rule take_run_append)
    have suc: "successively (\<lambda>a b. (cmp b a < 0) = (cmp y x < 0)) (x # run')"
      using t by (rule take_run_successively)
    have rest: "rest = rest'" using run t xs by (simp add: Let_def)
    have subr: "set (x # run') \<subseteq> set S"
    proof -
      have "set (x # run') \<subseteq> set (x # run' @ rest')" by auto
      also have "\<dots> = set xs" using app xs by simp
      finally show ?thesis using sub by blast
    qed
    have whole: "x # run' @ rest' = xs" using app xs by simp
    show ?thesis
    proof (cases "cmp y x < 0")
      case True
      then have r: "run = rev (x # run')" using run t xs by (simp add: Let_def)
      have suc': "successively (\<lambda>a b. cmp b a < 0) (x # run')"
        using suc True by simp
      have "mset run + mset rest = mset (x # run' @ rest')" by (simp add: r rest)
      moreover have "sorted_wrt (\<lambda>a b. cmp a b \<le> 0) run"
        unfolding r using con subr suc' by (rule descending_run_reversed(1))
      moreover have "filter (\<lambda>x. cmp r x = 0) (run @ rest) = filter (\<lambda>x. cmp r x = 0) xs"
        if "r \<in> set S"
      proof -
        have "filter (\<lambda>x. cmp r x = 0) (rev (x # run')) = filter (\<lambda>x. cmp r x = 0) (x # run')"
          using con subr suc' that by (rule descending_run_reversed(2))
        then have "filter (\<lambda>x. cmp r x = 0) (run @ rest) =
            filter (\<lambda>x. cmp r x = 0) ((x # run') @ rest')"
          unfolding r rest filter_append by simp
        then show ?thesis using whole by simp
      qed
      ultimately show ?thesis using whole by simp
    next
      case False
      then have r: "run = x # run'" using run t xs by (simp add: Let_def)
      have suc': "successively (\<lambda>a b. \<not> cmp b a < 0) (x # run')"
        using suc False by simp
      have "sorted_wrt (\<lambda>a b. cmp a b \<le> 0) run"
        unfolding r using con subr suc' by (rule ascending_run_sorted)
      moreover have "run @ rest = xs" using whole by (simp add: r rest)
      ultimately show ?thesis by (metis mset_append)
    qed
  qed
  then show "mset run + mset rest = mset xs"
    and "sorted_wrt (\<lambda>a b. cmp a b \<le> 0) run"
    and "r \<in> set S \<Longrightarrow>
         filter (\<lambda>x. cmp r x = 0) (run @ rest) = filter (\<lambda>x. cmp r x = 0) xs"
    by simp_all
qed

text \<open>Binary insertion.\<close>

lemma binary_search_correct:
  assumes con: "consistent_comparator cmp S" and sub: "set ws \<subseteq> set S" and piv: "pivot \<in> set S"
    and srt: "sorted_wrt (\<lambda>a b. cmp a b \<le> 0) ws"
  shows "left \<le> right \<Longrightarrow> right \<le> length ws \<Longrightarrow>
     \<forall>i<left. cmp pivot (ws ! i) \<ge> 0 \<Longrightarrow>
     \<forall>i. right \<le> i \<and> i < length ws \<longrightarrow> cmp pivot (ws ! i) < 0 \<Longrightarrow>
     binary_search cmp pivot ws left right \<le> length ws \<and>
     (\<forall>i<binary_search cmp pivot ws left right. cmp pivot (ws ! i) \<ge> 0) \<and>
     (\<forall>i. binary_search cmp pivot ws left right \<le> i \<and> i < length ws \<longrightarrow>
          cmp pivot (ws ! i) < 0)"
proof (induction "right - left" arbitrary: left right rule: less_induct)
  case less
  show ?case
  proof (cases "left < right")
    case False
    then have "binary_search cmp pivot ws left right = left"
      by (simp add: binary_search.simps)
    moreover have "left = right" using False less.prems(1) by simp
    ultimately show ?thesis using less.prems by auto
  next
    case True
    define mid where "mid = left + (right - left) div 2"
    have mid: "left \<le> mid" "mid < right" using True by (auto simp: mid_def)
    then have midlen: "mid < length ws" using less.prems(2) by simp
    have wsS: "ws ! i \<in> set S" if "i < length ws" for i
      using sub that nth_mem by blast
    show ?thesis
    proof (cases "cmp pivot (ws ! mid) < 0")
      case lt: True
      have eq: "binary_search cmp pivot ws left right = binary_search cmp pivot ws left mid"
        using True lt by (subst binary_search.simps) (simp add: mid_def Let_def)
      have above: "\<forall>i. mid \<le> i \<and> i < length ws \<longrightarrow> cmp pivot (ws ! i) < 0"
      proof (intro allI impI)
        fix i assume i: "mid \<le> i \<and> i < length ws"
        show "cmp pivot (ws ! i) < 0"
        proof (cases "i = mid")
          case True
          then show ?thesis using lt by simp
        next
          case False
          then have "mid < i" using i by simp
          then have "cmp (ws ! mid) (ws ! i) \<le> 0"
            using srt i by (simp add: sorted_wrt_iff_nth_less)
          then show ?thesis
            using consistent_lt_le [OF con piv wsS [OF midlen] wsS, of i] lt i by simp
        qed
      qed
      have "mid - left < right - left" using mid by simp
      from less.hyps [OF this] mid midlen less.prems(3) above
      show ?thesis unfolding eq by simp
    next
      case ge: False
      have eq: "binary_search cmp pivot ws left right = binary_search cmp pivot ws (mid + 1) right"
        using True ge by (subst binary_search.simps) (simp add: mid_def Let_def)
      have mp: "cmp (ws ! mid) pivot \<le> 0"
        using consistent_ge_flip [OF con piv wsS [OF midlen]] ge by simp
      have below: "\<forall>i<mid + 1. cmp pivot (ws ! i) \<ge> 0"
      proof (intro allI impI)
        fix i assume i: "i < mid + 1"
        show "cmp pivot (ws ! i) \<ge> 0"
        proof (cases "i = mid")
          case True
          then show ?thesis using ge by simp
        next
          case False
          then have im: "i < mid" using i by simp
          then have ilen: "i < length ws" using midlen by simp
          have "cmp (ws ! i) (ws ! mid) \<le> 0"
            using srt im midlen by (simp add: sorted_wrt_iff_nth_less)
          then have "cmp (ws ! i) pivot \<le> 0"
            using consistent_trans_le [OF con wsS [OF ilen] wsS [OF midlen] piv] mp by simp
          then show ?thesis
            using consistent_le_flip [OF con wsS [OF ilen] piv] by simp
        qed
      qed
      have "right - (mid + 1) < right - left" using mid by simp
      from less.hyps [OF this] mid less.prems(2) below less.prems(4)
      show ?thesis unfolding eq by simp
    qed
  qed
qed

lemma insert_pivot_correct:
  assumes con: "consistent_comparator cmp S" and sub: "set ws \<subseteq> set S" and piv: "pivot \<in> set S"
    and srt: "sorted_wrt (\<lambda>a b. cmp a b \<le> 0) ws"
  shows "mset (insert_pivot cmp ws pivot) = mset (ws @ [pivot])"
    and "sorted_wrt (\<lambda>a b. cmp a b \<le> 0) (insert_pivot cmp ws pivot)"
    and "r \<in> set S \<Longrightarrow> filter (\<lambda>x. cmp r x = 0) (insert_pivot cmp ws pivot) =
           filter (\<lambda>x. cmp r x = 0) (ws @ [pivot])"
proof -
  define p where "p = binary_search cmp pivot ws 0 (length ws)"
  have ins: "insert_pivot cmp ws pivot = take p ws @ pivot # drop p ws"
    by (simp add: insert_pivot_def p_def Let_def)
  have spec: "p \<le> length ws \<and> (\<forall>i<p. cmp pivot (ws ! i) \<ge> 0) \<and>
      (\<forall>i. p \<le> i \<and> i < length ws \<longrightarrow> cmp pivot (ws ! i) < 0)"
    unfolding p_def using binary_search_correct [OF con sub piv srt, of 0 "length ws"] by simp
  have wsS: "x \<in> set S" if "x \<in> set ws" for x using sub that by blast
  have before: "cmp pivot x \<ge> 0" if x: "x \<in> set (take p ws)" for x
  proof -
    obtain i where "i < length (take p ws)" "take p ws ! i = x"
      using x unfolding in_set_conv_nth by blast
    then show ?thesis using spec by auto
  qed
  have after: "cmp pivot x < 0" if x: "x \<in> set (drop p ws)" for x
  proof -
    obtain i where i: "i < length (drop p ws)" "drop p ws ! i = x"
      using x unfolding in_set_conv_nth by blast
    then have "x = ws ! (p + i)" "p + i < length ws" using spec by auto
    then show ?thesis using spec by auto
  qed
  have split: "take p ws @ drop p ws = ws" by simp
  show "mset (insert_pivot cmp ws pivot) = mset (ws @ [pivot])"
  proof -
    have "mset (take p ws) + mset (drop p ws) = mset ws"
      by (metis split mset_append)
    then show ?thesis by (simp add: ins)
  qed
  show "sorted_wrt (\<lambda>a b. cmp a b \<le> 0) (insert_pivot cmp ws pivot)"
  proof -
    have s: "sorted_wrt (\<lambda>a b. cmp a b \<le> 0) (take p ws @ drop p ws)"
      using srt by simp
    have "cmp x pivot \<le> 0" if "x \<in> set (take p ws)" for x
      using consistent_ge_flip [OF con piv wsS, of x] before [OF that] that
      by (auto dest: in_set_takeD)
    moreover have "cmp pivot x \<le> 0" if "x \<in> set (drop p ws)" for x
      using after [OF that] by simp
    ultimately show ?thesis
      using s unfolding ins sorted_wrt_append by auto
  qed
  show "filter (\<lambda>x. cmp r x = 0) (insert_pivot cmp ws pivot) =
        filter (\<lambda>x. cmp r x = 0) (ws @ [pivot])" if r: "r \<in> set S"
  proof (cases "cmp r pivot = 0")
    case True
    have "\<not> cmp r x = 0" if x: "x \<in> set (drop p ws)" for x
    proof
      assume rx: "cmp r x = 0"
      have xS: "x \<in> set S" using x by (auto dest: in_set_dropD intro: wsS)
      have "cmp pivot r = 0" using consistent_sym [OF con r piv] True by simp
      then have "cmp pivot x = 0" using consistent_trans_eq [OF con piv r xS] rx by simp
      with after [OF x] show False by simp
    qed
    then have "filter (\<lambda>x. cmp r x = 0) (drop p ws) = []"
      by (simp add: filter_empty_conv)
    moreover have "filter (\<lambda>x. cmp r x = 0) ws =
        filter (\<lambda>x. cmp r x = 0) (take p ws) @ filter (\<lambda>x. cmp r x = 0) (drop p ws)"
      by (metis split filter_append)
    ultimately show ?thesis using True by (simp add: ins)
  next
    case False
    have "filter (\<lambda>x. cmp r x = 0) ws =
        filter (\<lambda>x. cmp r x = 0) (take p ws) @ filter (\<lambda>x. cmp r x = 0) (drop p ws)"
      by (metis split filter_append)
    then show ?thesis using False by (simp add: ins)
  qed
qed

lemma set_insert_pivot: "set (insert_pivot cmp ws pivot) = insert pivot (set ws)"
proof -
  define p where "p = binary_search cmp pivot ws 0 (length ws)"
  have "set (take p ws) \<union> set (drop p ws) = set ws"
    by (metis append_take_drop_id set_append)
  then show ?thesis by (auto simp: insert_pivot_def p_def Let_def)
qed

lemma BinaryInsertionSort_correct:
  assumes con: "consistent_comparator cmp S"
  shows "set run \<subseteq> set S \<Longrightarrow> set rest \<subseteq> set S \<Longrightarrow>
     sorted_wrt (\<lambda>a b. cmp a b \<le> 0) run \<Longrightarrow>
     mset (BinaryInsertionSort cmp run rest) = mset (run @ rest) \<and>
     sorted_wrt (\<lambda>a b. cmp a b \<le> 0) (BinaryInsertionSort cmp run rest) \<and>
     (\<forall>r\<in>set S. filter (\<lambda>x. cmp r x = 0) (BinaryInsertionSort cmp run rest) =
                 filter (\<lambda>x. cmp r x = 0) (run @ rest))"
proof (induction rest arbitrary: run)
  case Nil
  then show ?case by (simp add: BinaryInsertionSort_def)
next
  case (Cons x rest)
  let ?run = "insert_pivot cmp run x"
  have x: "x \<in> set S" using Cons.prems(2) by simp
  note ip = insert_pivot_correct [OF con Cons.prems(1) x Cons.prems(3)]
  have step: "BinaryInsertionSort cmp run (x # rest) = BinaryInsertionSort cmp ?run rest"
    by (simp add: BinaryInsertionSort_def)
  have "set ?run \<subseteq> set S" using Cons.prems(1) x by (simp add: set_insert_pivot)
  moreover have "set rest \<subseteq> set S" using Cons.prems(2) by simp
  ultimately have ih: "mset (BinaryInsertionSort cmp ?run rest) = mset (?run @ rest) \<and>
     sorted_wrt (\<lambda>a b. cmp a b \<le> 0) (BinaryInsertionSort cmp ?run rest) \<and>
     (\<forall>r\<in>set S. filter (\<lambda>x. cmp r x = 0) (BinaryInsertionSort cmp ?run rest) =
                 filter (\<lambda>x. cmp r x = 0) (?run @ rest))"
    using ip(2) by (rule Cons.IH)
  have "mset (?run @ rest) = mset (run @ x # rest)" using ip(1) by simp
  moreover have "filter (\<lambda>x. cmp r x = 0) (?run @ rest) = filter (\<lambda>x. cmp r x = 0) (run @ x # rest)"
    if "r \<in> set S" for r
    using ip(3) [OF that] by simp
  ultimately show ?case unfolding step using ih by simp
qed

lemma short_array_sort_correct: "sorts_as_required short_array_sort"
  unfolding sorts_as_required_def
proof (intro allI impI)
  fix cmp :: "'a \<Rightarrow> 'a \<Rightarrow> int" and xs
  assume con: "consistent_comparator cmp xs"
  obtain run rest where cr: "CountAndMakeRun cmp xs = (run, rest)"
    by (cases "CountAndMakeRun cmp xs")
  note c = CountAndMakeRun_correct [OF con subset_refl cr]
  have sets: "set run \<subseteq> set xs" "set rest \<subseteq> set xs"
    using c(1) by (metis mset_append set_append set_mset_mset sup_ge1 sup_ge2)+
  have b: "mset (BinaryInsertionSort cmp run rest) = mset (run @ rest) \<and>
     sorted_wrt (\<lambda>a b. cmp a b \<le> 0) (BinaryInsertionSort cmp run rest) \<and>
     (\<forall>r\<in>set xs. filter (\<lambda>x. cmp r x = 0) (BinaryInsertionSort cmp run rest) =
                 filter (\<lambda>x. cmp r x = 0) (run @ rest))"
    using con sets c(2) by (rule BinaryInsertionSort_correct)
  have eq: "short_array_sort cmp xs = BinaryInsertionSort cmp run rest"
    by (simp add: short_array_sort_def cr)
  show "mset (short_array_sort cmp xs) = mset xs \<and>
        sorted_wrt (\<lambda>a b. cmp a b \<le> 0) (short_array_sort cmp xs) \<and>
        (\<forall>r\<in>set xs. filter (\<lambda>x. cmp r x = 0) (short_array_sort cmp xs) =
                     filter (\<lambda>x. cmp r x = 0) xs)"
    unfolding eq using b c(1) c(3) by simp
qed

section \<open>Properties of the sort engine\<close>

lemma compareRows_Desc: "compareRows h k Desc a b = - compareRows h k Asc a b"
  by (simp add: compareRows_def Let_def)

lemma compareRows_eq_0: "(compareRows h k d a b = 0) = ties h k a b"
  by (auto simp: compareRows_def Let_def ties_def)

lemma consistent_comparator_Desc:
  "consistent_comparator (compareRows h k Desc) rows =
   consistent_comparator (compareRows h k Asc) rows"
  unfolding consistent_comparator_def compareRows_Desc
  by (simp only: neg_equal_0_iff_equal neg_less_0_iff_less neg_0_less_iff_less) blast

lemma consistent_compareRows:
  "consistent_comparator (compareRows h k d) rows = comparable_at h k rows"
  by (cases d) (simp_all add: comparable_at_def consistent_comparator_Desc)

lemma comparable_at_subset:
  "comparable_at h k rows \<Longrightarrow> set rows' \<subseteq> set rows \<Longrightarrow> comparable_at h k rows'"
  unfolding comparable_at_def by (rule consistent_subset)

lemma ties_refl: "comparable_at h k rows \<Longrightarrow> r \<in> set rows \<Longrightarrow> ties h k r r"
  using consistent_refl [of "compareRows h k Asc" rows r]
  by (simp add: comparable_at_def compareRows_eq_0)

lemma ties_sym:
  "comparable_at h k rows \<Longrightarrow> a \<in> set rows \<Longrightarrow> b \<in> set rows \<Longrightarrow> ties h k a b \<Longrightarrow> ties h k b a"
  using consistent_sym [of "compareRows h k Asc" rows a b]
  by (simp add: comparable_at_def compareRows_eq_0)

lemma no_ties_distinct:
  assumes con: "comparable_at h k rows" and nt: "no_ties h k rows"
  shows "distinct rows"
proof -
  have "rows ! i \<noteq> rows ! j" if ij: "i < j" "j < length rows" for i j
  proof
    assume eq: "rows ! i = rows ! j"
    have "rows ! j \<in> set rows" using ij by simp
    then have "ties h k (rows ! j) (rows ! j)" by (rule ties_refl [OF con])
    then have "ties h k (rows ! i) (rows ! j)" by (simp add: eq)
    moreover have "\<not> ties h k (rows ! i) (rows ! j)"
      using nt ij by (simp add: no_ties_def sorted_wrt_iff_nth_less)
    ultimately show False by simp
  qed
  then have "rows ! i \<noteq> rows ! j" if "i < length rows" "j < length rows" "i \<noteq> j" for i j
    using that by (cases "i < j") (force, metis linorder_neqE_nat)
  then show ?thesis
    unfolding distinct_conv_nth by blast
qed

lemma no_ties_set:
  assumes con: "comparable_at h k rows" and nt: "no_ties h k rows"
    and a: "a \<in> set rows" and b: "b \<in> set rows" and ne: "a \<noteq> b"
  shows "\<not> ties h k a b"
proof -
  obtain i j where i: "i < length rows" "rows ! i = a" and j: "j < length rows" "rows ! j = b"
    using a b unfolding in_set_conv_nth by blast
  have "i \<noteq> j" using i j ne by auto
  then consider "i < j" | "j < i" by linarith
  then show ?thesis
  proof cases
    case 1
    then show ?thesis
      using nt i j by (auto simp: no_ties_def sorted_wrt_iff_nth_less)
  next
    case 2
    then have "\<not> ties h k b a"
      using nt i j by (auto simp: no_ties_def sorted_wrt_iff_nth_less)
    then show ?thesis using ties_sym [OF con a b] by blast
  qed
qed

lemma filter_eq_single: "distinct xs \<Longrightarrow> r \<in> set xs \<Longrightarrow> filter (\<lambda>x. x = r) xs = [r]"
proof (induction xs)
  case Nil
  then show ?case by simp
next
  case (Cons x xs)
  show ?case
  proof (cases "x = r")
    case True
    then have "r \<notin> set xs" using Cons.prems by simp
    then have "filter (\<lambda>x. x = r) xs = []" by (auto simp: filter_empty_conv)
    with True show ?thesis by simp
  next
    case False
    then show ?thesis using Cons by simp
  qed
qed

lemma sorts_as_requiredD:
  assumes "sorts_as_required srt" and "consistent_comparator cmp xs"
  shows "mset (srt cmp xs) = mset xs"
    and "sorted_wrt (\<lambda>a b. cmp a b \<le> 0) (srt cmp xs)"
    and "\<forall>r\<in>set xs. filter (\<lambda>x. cmp r x = 0) (srt cmp xs) = filter (\<lambda>x. cmp r x = 0) xs"
  using assms(1) [unfolded sorts_as_required_def, rule_format, OF assms(2)] by simp_all

lemma sortedData_sorts:
  "k \<noteq> [] \<Longrightarrow>
   sortedData h rows \<lparr>key = Some k, direction = d\<rparr> = Array_sort h (compareRows h k d) rows"
  by (simp add: sortedData_def)

lemma v8_host_sorts_as_required: "sorts_as_required (Array_sort v8_host)"
  by (simp add: v8_host_def short_array_sort_correct)

text \<open>
  A column is comparable when the host orders its values as a linear order does, as it
  orders a column of numbers other than NaN, or a column of strings.
\<close>

lemma comparable_linorder:
  fixes f :: "'v \<Rightarrow> 'b::linorder"
  assumes "\<And>a b. a \<in> set rows \<Longrightarrow> b \<in> set rows \<Longrightarrow>
             js_lt h (a k) (b k) = (f (a k) < f (b k))"
    and "\<And>a b. a \<in> set rows \<Longrightarrow> b \<in> set rows \<Longrightarrow>
             js_gt h (a k) (b k) = (f (b k) < f (a k))"
  shows "comparable_at h k rows"
  unfolding comparable_at_def consistent_comparator_def
proof (intro ballI conjI impI)
  fix a assume "a \<in> set rows"
  then show "compareRows h k Asc a a = 0" by (simp add: compareRows_def Let_def assms)
next
  fix a b assume "a \<in> set rows" "b \<in> set rows" "compareRows h k Asc a b = 0"
  then show "compareRows h k Asc b a = 0"
    by (simp add: compareRows_def Let_def assms split: if_splits)
next
  fix a b c assume "a \<in> set rows" "b \<in> set rows" "c \<in> set rows"
    "compareRows h k Asc a b = 0 \<and> compareRows h k Asc b c = 0"
  then show "compareRows h k Asc a c = 0"
    by (simp add: compareRows_def Let_def assms split: if_splits)
next
  fix a b c assume "a \<in> set rows" "b \<in> set rows" "c \<in> set rows"
    "compareRows h k Asc a b < 0 \<and> compareRows h k Asc b c < 0"
  then show "compareRows h k Asc a c < 0"
    by (auto simp: compareRows_def Let_def assms split: if_splits)
next
  fix a b c assume "a \<in> set rows" "b \<in> set rows" "c \<in> set rows"
    "0 < compareRows h k Asc a b \<and> 0 < compareRows h k Asc b c"
  then show "0 < compareRows h k Asc a c"
    by (auto simp: compareRows_def Let_def assms split: if_splits)
qed

lemmas v8_eval = sortedData_def compareRows_def v8_host_def IsLessThan_def obj_def
  short_array_sort_def BinaryInsertionSort_def insert_pivot_def binary_search.simps
  ties_def comparable_at_def consistent_comparator_def no_ties_def Let_def

text \<open>On the host instance a column of numbers is comparable, and ties are equal values.\<close>

lemma v8_number_column_comparable:
  assumes "\<forall>r\<in>set rows. \<exists>n. r k = JNumber n"
  shows "comparable_at v8_host k rows"
proof (rule comparable_linorder [where f = "\<lambda>v. case v of JNumber n \<Rightarrow> n | _ \<Rightarrow> 0"])
  fix a b assume "a \<in> set rows" "b \<in> set rows"
  then obtain m n where mn: "a k = JNumber m" "b k = JNumber n"
    using assms by blast
  show "js_lt v8_host (a k) (b k) =
      ((case a k of JNumber n \<Rightarrow> n | _ \<Rightarrow> 0) < (case b k of JNumber n \<Rightarrow> n | _ \<Rightarrow> 0))"
    by (simp add: mn v8_host_def IsLessThan_def)
  show "js_gt v8_host (a k) (b k) =
      ((case b k of JNumber n \<Rightarrow> n | _ \<Rightarrow> 0) < (case a k of JNumber n \<Rightarrow> n | _ \<Rightarrow> 0))"
    by (simp add: mn v8_host_def IsLessThan_def)
qed

lemma v8_distinct_numbers_no_ties:
  assumes num: "\<forall>r\<in>set rows. \<exists>n. r k = JNumber n"
    and dist: "distinct (map (\<lambda>r. r k) rows)"
  shows "no_ties v8_host k rows"
proof -
  have "\<not> ties v8_host k (rows ! i) (rows ! j)" if ij: "i < j" "j < length rows" for i j
  proof -
    have "rows ! i \<in> set rows" "rows ! j \<in> set rows"
      using ij by simp_all
    then obtain m n where mn: "(rows ! i) k = JNumber m" "(rows ! j) k = JNumber n"
      using num by blast
    have "map (\<lambda>r. r k) rows ! i \<noteq> map (\<lambda>r. r k) rows ! j"
      using dist ij nth_eq_iff_index_eq [of "map (\<lambda>r. r k) rows" i j] by simp
    then have "m \<noteq> n" using ij mn by simp
    then show ?thesis by (auto simp add: ties_def v8_host_def IsLessThan_def mn)
  qed
  then show ?thesis by (simp add: no_ties_def sorted_wrt_iff_nth_less)
qed

section \<open>Properties of the selection tracker and of rendering\<close>

lemma filter_index_nths: "filter_index (\<lambda>_ i. i \<in> S) xs = nths xs S"
  by (simp add: filter_index_def nths_def case_prod_unfold)

lemma nths_inter_range: "nths xs (S \<inter> {..<length xs}) = nths xs S"
proof -
  have "filter (\<lambda>p. snd p \<in> S \<inter> {..<length xs}) (zip xs [0..<length xs]) =
        filter (\<lambda>p. snd p \<in> S) (zip xs [0..<length xs])"
  proof (rule filter_cong [OF refl])
    fix q assume "q \<in> set (zip xs [0..<length xs])"
    then have "snd q \<in> set [0..<length xs]"
      using set_zip_rightD [of "fst q" "snd q" xs "[0..<length xs]"] by simp
    then show "(snd q \<in> S \<inter> {..<length xs}) = (snd q \<in> S)" by simp
  qed
  then show ?thesis by (simp add: nths_def)
qed

lemma nths_upt_sorted_list:
  assumes "S \<subseteq> {..<n}"
  shows "nths [0..<n] S = sorted_list_of_set S"
proof -
  have fin: "finite S" using assms by (rule finite_subset) simp
  have "set (nths [0..<n] S) = S"
  proof (intro set_eqI iffI)
    fix x assume "x \<in> set (nths [0..<n] S)"
    then obtain i where "x = [0..<n] ! i" "i < n" "i \<in> S"
      by (auto simp: set_nths)
    then show "x \<in> S" by simp
  next
    fix x assume x: "x \<in> S"
    then have "x < n" using assms by auto
    then have "x = [0..<n] ! x \<and> x < length [0..<n] \<and> x \<in> S" using x by simp
    then show "x \<in> set (nths [0..<n] S)" unfolding set_nths by blast
  qed
  moreover have "sorted (nths [0..<n] S)" by (simp add: sorted_nths)
  moreover have "distinct (nths [0..<n] S)" by simp
  ultimately show ?thesis
    using fin by (metis sorted_list_of_set.idem_if_sorted_distinct)
qed

lemma nths_sorted_list:
  assumes "S \<subseteq> {..<length xs}"
  shows "nths xs S = map ((!) xs) (sorted_list_of_set S)"
proof -
  have "nths xs S = nths (map ((!) xs) [0..<length xs]) S" by (simp add: map_nth)
  also have "\<dots> = map ((!) xs) (nths [0..<length xs] S)" by (rule nths_map)
  also have "\<dots> = map ((!) xs) (sorted_list_of_set S)"
    using assms by (simp add: nths_upt_sorted_list)
  finally show ?thesis .
qed

lemma handleSelectRow_selected:
  "selectedRows (handleSelectRow p i checked s) =
     (if checked then insert i (selectedRows s) else selectedRows s - {i})"
  by (simp add: handleSelectRow_def call_onRowSelect_def Let_def)

lemma handleSelectRow_calls:
  "onRowSelect p \<Longrightarrow>
   calls (handleSelectRow p i checked s) =
     calls s @ [nths (data p) (selectedRows (handleSelectRow p i checked s))]"
  by (simp add: handleSelectRow_def call_onRowSelect_def Let_def filter_index_nths)

lemma select_rows_snoc:
  "select_rows p (ps @ [i]) s = handleSelectRow p i True (select_rows p ps s)"
  by (simp add: select_rows_def)

lemma select_rows_selected:
  "selectedRows (select_rows p ps s) = selectedRows s \<union> set ps"
proof (induction ps rule: rev_induct)
  case Nil
  then show ?case by (simp add: select_rows_def)
next
  case (snoc i ps)
  then show ?case by (simp add: select_rows_snoc handleSelectRow_selected)
qed

lemma select_rows_last_call:
  assumes "onRowSelect p" "ps \<noteq> []"
  shows "last (calls (select_rows p ps s)) = nths (data p) (selectedRows s \<union> set ps)"
proof (cases ps rule: rev_cases)
  case Nil
  with assms show ?thesis by simp
next
  case (snoc qs i)
  have "last (calls (select_rows p ps s)) =
        nths (data p) (selectedRows (handleSelectRow p i True (select_rows p qs s)))"
    using assms(1) by (simp add: snoc select_rows_snoc handleSelectRow_calls)
  also have "selectedRows (handleSelectRow p i True (select_rows p qs s)) =
        selectedRows s \<union> set ps"
    by (simp add: snoc handleSelectRow_selected select_rows_selected)
  finally show ?thesis .
qed


section \<open>The claims\<close>

subsection \<open>Sort engine\<close>

text \<open>
  Claim C1, as amended. On every host whose sort does what the language standard
  requires, for every data sequence whose values at the sort key \<open>k\<close> are mutually
  comparable, and for the ascending and the descending direction alike, the sort
  engine is stable: it returns a rearrangement of the data (in the comparator's order
  when the key is not empty) in which, for every row \<open>r\<close> of the data, the rows that
  tie with \<open>r\<close> at \<open>k\<close> stand in their original input order.
\<close>

theorem sortedData_stable:
  assumes req: "sorts_as_required (Array_sort h)" and cmp: "comparable_at h k rows"
  shows "mset (sortedData h rows \<lparr>key = Some k, direction = d\<rparr>) = mset rows \<and>
         (k \<noteq> [] \<longrightarrow>
            sorted_wrt (\<lambda>a b. compareRows h k d a b \<le> 0)
              (sortedData h rows \<lparr>key = Some k, direction = d\<rparr>)) \<and>
         (\<forall>r\<in>set rows.
            filter (ties h k r) (sortedData h rows \<lparr>key = Some k, direction = d\<rparr>) =
            filter (ties h k r) rows)"
proof (cases "k = []")
  case True
  then show ?thesis by (simp add: sortedData_def)
next
  case False
  let ?out = "Array_sort h (compareRows h k d) rows"
  have con: "consistent_comparator (compareRows h k d) rows"
    using cmp by (simp add: consistent_compareRows)
  have out: "sortedData h rows \<lparr>key = Some k, direction = d\<rparr> = ?out"
    using False by (rule sortedData_sorts)
  have "mset ?out = mset rows"
    using req con by (rule sorts_as_requiredD(1))
  moreover have "sorted_wrt (\<lambda>a b. compareRows h k d a b \<le> 0) ?out"
    using req con by (rule sorts_as_requiredD(2))
  moreover have "\<forall>r\<in>set rows. filter (\<lambda>x. compareRows h k d r x = 0) ?out =
                      filter (\<lambda>x. compareRows h k d r x = 0) rows"
    using req con by (rule sorts_as_requiredD(3))
  ultimately show ?thesis
    unfolding out by (simp add: compareRows_eq_0)
qed

text \<open>
  A column of numbers with a tie, sorted descending on the host instance: the two rows
  of value 2 keep their input order.
\<close>

theorem sortedData_stable_witness:
  "sorts_as_required (Array_sort v8_host) \<and>
   comparable_at v8_host ''v''
     [obj [(''v'', JNumber 2), (''id'', JNumber 1)], obj [(''v'', JNumber 1)],
      obj [(''v'', JNumber 2), (''id'', JNumber 2)]] \<and>
   filter (ties v8_host ''v'' (obj [(''v'', JNumber 2), (''id'', JNumber 1)]))
     (sortedData v8_host
        [obj [(''v'', JNumber 2), (''id'', JNumber 1)], obj [(''v'', JNumber 1)],
         obj [(''v'', JNumber 2), (''id'', JNumber 2)]]
        \<lparr>key = Some ''v'', direction = Desc\<rparr>) =
     [obj [(''v'', JNumber 2), (''id'', JNumber 1)], obj [(''v'', JNumber 2), (''id'', JNumber 2)]]"
proof -
  let ?a = "obj [(''v'', JNumber 2), (''id'', JNumber 1)]"
  let ?b = "obj [(''v'', JNumber 2), (''id'', JNumber 2)]"
  let ?rows = "[?a, obj [(''v'', JNumber 1)], ?b]"
  have c: "comparable_at v8_host ''v'' ?rows" by (simp add: v8_eval)
  have "?a \<in> set ?rows" by simp
  then have "filter (ties v8_host ''v'' ?a)
          (sortedData v8_host ?rows \<lparr>key = Some ''v'', direction = Desc\<rparr>) =
        filter (ties v8_host ''v'' ?a) ?rows"
    using sortedData_stable [OF v8_host_sorts_as_required c, of Desc] by blast
  also have "\<dots> = [?a, ?b]" by (simp add: v8_eval)
  finally show ?thesis using c v8_host_sorts_as_required by blast
qed

text \<open>
  The claim as stated, for every data sequence, fails where a row lacks the field. On
  the host instance the values 5, 3, 9, undefined, 4 are sorted to 3, 4, 5, 9,
  undefined: the row without the field ties with the row of value 4 (neither
  \<^verbatim>\<open><\<close> nor \<^verbatim>\<open>></\<close> holds of undefined and 4) and stands before it in the input, after it
  in the output.
\<close>

theorem sortedData_stable_counterexample:
  "sortedData v8_host
     [obj [(''v'', JNumber 5)], obj [(''v'', JNumber 3)], obj [(''v'', JNumber 9)], obj [],
      obj [(''v'', JNumber 4)]]
     \<lparr>key = Some ''v'', direction = Asc\<rparr> =
     [obj [(''v'', JNumber 3)], obj [(''v'', JNumber 4)], obj [(''v'', JNumber 5)],
      obj [(''v'', JNumber 9)], obj []] \<and>
   filter (ties v8_host ''v'' (obj [(''v'', JNumber 4)]))
     [obj [(''v'', JNumber 5)], obj [(''v'', JNumber 3)], obj [(''v'', JNumber 9)], obj [],
      obj [(''v'', JNumber 4)]] =
     [obj [], obj [(''v'', JNumber 4)]] \<and>
   filter (ties v8_host ''v'' (obj [(''v'', JNumber 4)]))
     [obj [(''v'', JNumber 3)], obj [(''v'', JNumber 4)], obj [(''v'', JNumber 5)],
      obj [(''v'', JNumber 9)], obj []] =
     [obj [(''v'', JNumber 4)], obj []]"
  by (simp add: v8_eval)

text \<open>
  Claim C2, as amended. On every host whose sort does what the language standard
  requires, for every data sequence and every non-empty key \<open>k\<close> such that the values
  at \<open>k\<close> are mutually comparable and no two rows tie at \<open>k\<close>, sorting ascending by
  \<open>k\<close> and then sorting the result descending by \<open>k\<close> yields the exact reverse of the
  ascending sort.
\<close>

theorem sort_asc_then_desc:
  assumes req: "sorts_as_required (Array_sort h)" and cmp: "comparable_at h k rows"
    and nt: "no_ties h k rows" and k: "k \<noteq> []"
  shows "sortedData h (sortedData h rows \<lparr>key = Some k, direction = Asc\<rparr>)
           \<lparr>key = Some k, direction = Desc\<rparr> =
         rev (sortedData h rows \<lparr>key = Some k, direction = Asc\<rparr>)"
proof -
  let ?asc = "compareRows h k Asc" and ?desc = "compareRows h k Desc"
  let ?s1 = "Array_sort h ?asc rows"
  let ?s2 = "Array_sort h ?desc ?s1"
  have con: "consistent_comparator ?asc rows"
    using cmp by (simp add: comparable_at_def)
  have one: "mset ?s1 = mset rows" "sorted_wrt (\<lambda>a b. ?asc a b \<le> 0) ?s1"
    by (rule sorts_as_requiredD [OF req con])+
  have set1: "set ?s1 = set rows" using one(1) by (rule mset_eq_setD)
  have cmp1: "comparable_at h k ?s1"
    using cmp by (rule comparable_at_subset) (simp add: set1)
  have con1: "consistent_comparator ?asc ?s1"
    using cmp1 by (simp add: comparable_at_def)
  have cond: "consistent_comparator ?desc ?s1"
    using cmp1 by (simp add: consistent_compareRows)
  have two: "mset ?s2 = mset ?s1" "sorted_wrt (\<lambda>a b. ?desc a b \<le> 0) ?s2"
    "\<forall>r\<in>set ?s1. filter (\<lambda>x. ?desc r x = 0) ?s2 = filter (\<lambda>x. ?desc r x = 0) ?s1"
    by (rule sorts_as_requiredD [OF req cond])+
  have dist1: "distinct ?s1"
    using no_ties_distinct [OF cmp nt] mset_eq_imp_distinct_iff [OF one(1)] by blast
  have single: "filter (\<lambda>x. ?desc r x = 0) ?s1 = [r]" if r: "r \<in> set ?s1" for r
  proof -
    have "filter (\<lambda>x. ?desc r x = 0) ?s1 = filter (\<lambda>x. x = r) ?s1"
    proof (rule filter_cong [OF refl])
      fix x assume x: "x \<in> set ?s1"
      show "(?desc r x = 0) = (x = r)"
      proof (cases "x = r")
        case True
        then show ?thesis
          using ties_refl [OF cmp1 r] by (simp add: compareRows_eq_0)
      next
        case False
        then have "\<not> ties h k r x"
          using no_ties_set [OF cmp nt, of r x] r x set1 by auto
        with False show ?thesis by (simp add: compareRows_eq_0)
      qed
    qed
    then show ?thesis using filter_eq_single [OF dist1 r] by simp
  qed
  have "sorted_wrt (\<lambda>a b. ?desc a b \<le> 0) (rev ?s1)"
    unfolding sorted_wrt_rev
  proof (rule sorted_wrt_mono_rel [OF _ one(2)])
    fix x y assume "x \<in> set ?s1" "y \<in> set ?s1" "?asc x y \<le> 0"
    then have "?asc y x \<ge> 0" using consistent_le_flip [OF con1] by blast
    then show "?desc y x \<le> 0" by (simp add: compareRows_Desc)
  qed
  moreover have "consistent_comparator ?desc (rev ?s1)"
    by (rule consistent_subset [OF cond]) simp
  moreover have "set ?s2 = set (rev ?s1)"
    using mset_eq_setD [OF two(1)] by simp
  moreover have "\<forall>r\<in>set (rev ?s1). filter (\<lambda>x. ?desc r x = 0) ?s2 =
      filter (\<lambda>x. ?desc r x = 0) (rev ?s1)"
  proof
    fix r assume "r \<in> set (rev ?s1)"
    then have r: "r \<in> set ?s1" by simp
    have "filter (\<lambda>x. ?desc r x = 0) (rev ?s1) = rev (filter (\<lambda>x. ?desc r x = 0) ?s1)"
      by (rule rev_filter [symmetric])
    also have "\<dots> = filter (\<lambda>x. ?desc r x = 0) ?s1" by (simp add: single [OF r])
    finally show "filter (\<lambda>x. ?desc r x = 0) ?s2 = filter (\<lambda>x. ?desc r x = 0) (rev ?s1)"
      using two(3) r by simp
  qed
  ultimately have "?s2 = rev ?s1"
    using two(2) by (intro sorted_stable_unique)
  then show ?thesis using k by (simp add: sortedData_sorts)
qed

text \<open>Three rows with the values 2, 3 and 1, on the host instance.\<close>

theorem sort_asc_then_desc_witness:
  "sorts_as_required (Array_sort v8_host) \<and>
   comparable_at v8_host ''v''
     [obj [(''v'', JNumber 2)], obj [(''v'', JNumber 3)], obj [(''v'', JNumber 1)]] \<and>
   no_ties v8_host ''v''
     [obj [(''v'', JNumber 2)], obj [(''v'', JNumber 3)], obj [(''v'', JNumber 1)]] \<and>
   sortedData v8_host
     (sortedData v8_host
        [obj [(''v'', JNumber 2)], obj [(''v'', JNumber 3)], obj [(''v'', JNumber 1)]]
        \<lparr>key = Some ''v'', direction = Asc\<rparr>)
     \<lparr>key = Some ''v'', direction = Desc\<rparr> =
     [obj [(''v'', JNumber 3)], obj [(''v'', JNumber 2)], obj [(''v'', JNumber 1)]]"
proof -
  let ?rows = "[obj [(''v'', JNumber 2)], obj [(''v'', JNumber 3)], obj [(''v'', JNumber 1)]]"
  have c: "comparable_at v8_host ''v'' ?rows" by (simp add: v8_eval)
  have n: "no_ties v8_host ''v'' ?rows" by (simp add: v8_eval)
  have k: "''v'' \<noteq> []" by simp
  have asc: "sortedData v8_host ?rows \<lparr>key = Some ''v'', direction = Asc\<rparr> =
      [obj [(''v'', JNumber 1)], obj [(''v'', JNumber 2)], obj [(''v'', JNumber 3)]]"
    by (simp add: v8_eval)
  show ?thesis
    using sort_asc_then_desc [OF v8_host_sorts_as_required c n k] c n v8_host_sorts_as_required
    unfolding asc by simp
qed

text \<open>
  The claim as stated, for pairwise distinct values, fails for the values 0 and null:
  they are distinct and tie (null converts to 0), so both sorts keep the input order
  and the descending result is not the reverse of the ascending one.
\<close>

theorem sort_asc_then_desc_counterexample:
  "obj [(''v'', JNumber 0)] ''v'' \<noteq> obj [(''v'', JNull)] ''v'' \<and>
   sortedData v8_host [obj [(''v'', JNumber 0)], obj [(''v'', JNull)]]
     \<lparr>key = Some ''v'', direction = Asc\<rparr> = [obj [(''v'', JNumber 0)], obj [(''v'', JNull)]] \<and>
   sortedData v8_host [obj [(''v'', JNumber 0)], obj [(''v'', JNull)]]
     \<lparr>key = Some ''v'', direction = Desc\<rparr> = [obj [(''v'', JNumber 0)], obj [(''v'', JNull)]] \<and>
   rev [obj [(''v'', JNumber 0)], obj [(''v'', JNull)]] \<noteq>
     [obj [(''v'', JNumber 0)], obj [(''v'', JNull)]]"
proof -
  have ne: "obj [(''v'', JNull)] \<noteq> obj [(''v'', JNumber 0)]"
  proof
    assume "obj [(''v'', JNull)] = obj [(''v'', JNumber 0)]"
    then have "obj [(''v'', JNull)] ''v'' = obj [(''v'', JNumber 0)] ''v''" by simp
    then show False by (simp add: obj_def)
  qed
  have "obj [(''v'', JNumber 0)] ''v'' \<noteq> obj [(''v'', JNull)] ''v''" by (simp add: obj_def)
  moreover have "sortedData v8_host [obj [(''v'', JNumber 0)], obj [(''v'', JNull)]]
     \<lparr>key = Some ''v'', direction = Asc\<rparr> = [obj [(''v'', JNumber 0)], obj [(''v'', JNull)]]"
    by (simp add: v8_eval)
  moreover have "sortedData v8_host [obj [(''v'', JNumber 0)], obj [(''v'', JNull)]]
     \<lparr>key = Some ''v'', direction = Desc\<rparr> = [obj [(''v'', JNumber 0)], obj [(''v'', JNull)]]"
    by (simp add: v8_eval)
  ultimately show ?thesis using ne by simp
qed

text \<open>
  Claim C3. For every data sequence, when the key of the sort configuration is unset
  the sort engine returns the data sequence itself, unmodified.
\<close>

theorem sortedData_key_unset:
  "key cfg = None \<Longrightarrow> sortedData h rows cfg = rows"
  by (simp add: sortedData_def)

text \<open>The theorem at a concrete input.\<close>

theorem sortedData_key_unset_witness:
  "sortedData v8_host [obj [(''v'', JNumber 2)], obj [(''v'', JNumber 1)]]
     \<lparr>key = None, direction = Desc\<rparr> = [obj [(''v'', JNumber 2)], obj [(''v'', JNumber 1)]]"
  using sortedData_key_unset
    [of "\<lparr>key = None, direction = Desc\<rparr>" v8_host
        "[obj [(''v'', JNumber 2)], obj [(''v'', JNumber 1)]]"]
  by simp

text \<open>
  Claim C4. For every prior state and every sortable column, a click on the header of
  the column toggles the direction if the column's key is already the active key, and
  otherwise makes it the active key with the ascending direction. Nothing else changes
  the sort configuration: a click on a column that is not sortable changes nothing,
  and the selection handlers leave the sort configuration as it is.
\<close>

theorem header_click_transition:
  "(sortable col \<longrightarrow>
      sortConfig (header_onClick col s) =
        (if key (sortConfig s) = Some (column_key col)
         then \<lparr>key = Some (column_key col),
               direction = (if direction (sortConfig s) = Asc then Desc else Asc)\<rparr>
         else \<lparr>key = Some (column_key col), direction = Asc\<rparr>)) \<and>
   (\<not> sortable col \<longrightarrow> header_onClick col s = s) \<and>
   sortConfig (handleSelectAll p checked s) = sortConfig s \<and>
   sortConfig (handleSelectRow p i checked s) = sortConfig s"
  by (simp add: header_onClick_def handleSort_def handleSelectAll_def handleSelectRow_def
      call_onRowSelect_def Let_def)

text \<open>A click on the active column and a click on another column.\<close>

theorem header_click_transition_witness:
  "sortConfig (header_onClick
      (\<lparr>column_key = ''name'', title = ''Name'', sortable = True, width = None,
        render = None\<rparr> :: (jsval, unit) column)
      (initial_state\<lparr>sortConfig := \<lparr>key = Some ''name'', direction = Asc\<rparr>\<rparr>))
     = \<lparr>key = Some ''name'', direction = Desc\<rparr> \<and>
   sortConfig (header_onClick
      (\<lparr>column_key = ''name'', title = ''Name'', sortable = True, width = None,
        render = None\<rparr> :: (jsval, unit) column)
      (initial_state\<lparr>sortConfig := \<lparr>key = Some ''email'', direction = Desc\<rparr>\<rparr>))
     = \<lparr>key = Some ''name'', direction = Asc\<rparr>"
  using header_click_transition
    [where col = "\<lparr>column_key = ''name'', title = ''Name'', sortable = True, width = None,
        render = None\<rparr> :: (jsval, unit) column"
       and s = "initial_state\<lparr>sortConfig := \<lparr>key = Some ''name'', direction = Asc\<rparr>\<rparr>",
     THEN conjunct1]
    header_click_transition
    [where col = "\<lparr>column_key = ''name'', title = ''Name'', sortable = True, width = None,
        render = None\<rparr> :: (jsval, unit) column"
       and s = "initial_state\<lparr>sortConfig := \<lparr>key = Some ''email'', direction = Desc\<rparr>\<rparr>",
     THEN conjunct1]
  by (simp add: initial_state_def)

text \<open>
  Claim C9. The test for an unset key is a falsiness test: for every data sequence, a
  sort configuration whose key is the empty string returns the data unmodified, and
  so does the configuration after a click on the header of a sortable column whose key
  is the empty string, whatever the state before the click.
\<close>

theorem empty_key_never_sorts:
  "sortedData h rows \<lparr>key = Some [], direction = d\<rparr> = rows \<and>
   sortedData h rows (handleSort [] prev) = rows \<and>
   (sortable col \<and> column_key col = [] \<longrightarrow>
      sortedData h rows (sortConfig (header_onClick col s)) = rows)"
  by (simp add: sortedData_def handleSort_def header_onClick_def)

text \<open>The theorem at a concrete input.\<close>

theorem empty_key_never_sorts_witness:
  "sortedData v8_host [obj [([], JNumber 2)], obj [([], JNumber 1)]]
     (sortConfig (header_onClick
        (\<lparr>column_key = [], title = ''Blank'', sortable = True, width = None,
          render = None\<rparr> :: (jsval, unit) column)
        initial_state))
     = [obj [([], JNumber 2)], obj [([], JNumber 1)]]"
proof -
  let ?col = "\<lparr>column_key = [], title = ''Blank'', sortable = True, width = None,
          render = None\<rparr> :: (jsval, unit) column"
  have "sortable ?col \<and> column_key ?col = []" by simp
  then show ?thesis
    using empty_key_never_sorts [where col = ?col] by blast
qed

subsection \<open>Selection tracker\<close>



text \<open>
  Claim C6. For every data sequence and every non-empty list \<open>ps\<close> of positions,
  toggled on one after the other from an empty selection with the callback supplied,
  the selection set is the set of \<open>ps\<close> and the last payload of the callback is the
  rows at the positions of \<open>ps\<close> (those within the data) in ascending order of
  position: it depends on the set of positions only, not on the order of the toggles.
\<close>

theorem select_rows_payload:
  assumes "onRowSelect p" and "selectedRows s = {}" and "ps \<noteq> []"
  shows "selectedRows (select_rows p ps s) = set ps \<and>
         last (calls (select_rows p ps s)) =
           map ((!) (data p)) (sorted_list_of_set (set ps \<inter> {..<length (data p)}))"
proof -
  have "last (calls (select_rows p ps s)) = nths (data p) (set ps)"
    using select_rows_last_call [OF assms(1) assms(3), of s] assms(2) by simp
  also have "\<dots> = nths (data p) (set ps \<inter> {..<length (data p)})"
    by (simp add: nths_inter_range)
  also have "\<dots> = map ((!) (data p)) (sorted_list_of_set (set ps \<inter> {..<length (data p)}))"
    by (rule nths_sorted_list) simp
  finally show ?thesis
    using assms(2) by (simp add: select_rows_selected)
qed

text \<open>Positions 2 and 0 on three rows, toggled in either order.\<close>

theorem select_rows_payload_witness:
  "last (calls (select_rows
      (\<lparr>data = [obj [(''id'', JNumber 1)], obj [(''id'', JNumber 2)], obj [(''id'', JNumber 3)]],
        columns = [], loading = False, selectable = True, onRowSelect = True,
        className = [], emptyMessage = None\<rparr> :: (jsval, unit) props) [2, 0] initial_state))
     = [obj [(''id'', JNumber 1)], obj [(''id'', JNumber 3)]] \<and>
   last (calls (select_rows
      (\<lparr>data = [obj [(''id'', JNumber 1)], obj [(''id'', JNumber 2)], obj [(''id'', JNumber 3)]],
        columns = [], loading = False, selectable = True, onRowSelect = True,
        className = [], emptyMessage = None\<rparr> :: (jsval, unit) props) [0, 2] initial_state))
     = [obj [(''id'', JNumber 1)], obj [(''id'', JNumber 3)]]"
proof -
  let ?p = "\<lparr>data = [obj [(''id'', JNumber 1)], obj [(''id'', JNumber 2)], obj [(''id'', JNumber 3)]],
        columns = [], loading = False, selectable = True, onRowSelect = True,
        className = [], emptyMessage = None\<rparr> :: (jsval, unit) props"
  have h1: "onRowSelect ?p" by simp
  have h2: "selectedRows initial_state = {}" by (simp add: initial_state_def)
  have a: "set [2, 0::nat] \<inter> {..<length (data ?p)} = set [0, 2]" by auto
  have b: "set [0, 2::nat] \<inter> {..<length (data ?p)} = set [0, 2]" by auto
  have c: "sorted_list_of_set (set [0, 2::nat]) = [0, 2]"
    unfolding sorted_list_of_set_sort_remdups by simp
  have "last (calls (select_rows ?p [2, 0] initial_state)) = map ((!) (data ?p)) [0, 2]"
    using select_rows_payload [OF h1 h2, of "[2, 0]"] unfolding a c by simp
  moreover have "last (calls (select_rows ?p [0, 2] initial_state)) = map ((!) (data ?p)) [0, 2]"
    using select_rows_payload [OF h1 h2, of "[0, 2]"] unfolding b c by simp
  ultimately show ?thesis by simp
qed

text \<open>
  Claim C10. For every data sequence, every prior selection set (stale positions
  beyond the data included), every position \<open>i\<close> and either value of the flag, with
  the callback supplied, \<^verbatim>\<open>handleSelectRow\<close> stores the prior set with \<open>i\<close> added or
  removed and invokes the callback once, with the current data filtered by membership
  of the position in that new set. Positions out of range contribute nothing, so the
  payload is a subsequence of the data and consists of the rows of the data at the
  selected positions.
\<close>

theorem handleSelectRow_payload:
  assumes "onRowSelect p"
  shows "let S' = (if checked then insert i (selectedRows s) else selectedRows s - {i}) in
         selectedRows (handleSelectRow p i checked s) = S' \<and>
         calls (handleSelectRow p i checked s) = calls s @ [nths (data p) S'] \<and>
         nths (data p) S' = nths (data p) (S' \<inter> {..<length (data p)}) \<and>
         subseq (nths (data p) S') (data p) \<and>
         set (nths (data p) S') = {data p ! j | j. j < length (data p) \<and> j \<in> S'}"
proof -
  let ?S = "if checked then insert i (selectedRows s) else selectedRows s - {i}"
  have "selectedRows (handleSelectRow p i checked s) = ?S"
    by (rule handleSelectRow_selected)
  moreover have "calls (handleSelectRow p i checked s) = calls s @ [nths (data p) ?S]"
    using assms by (simp add: handleSelectRow_calls handleSelectRow_selected)
  moreover have "subseq (nths (data p) ?S) (data p)"
    using subseq_conv_nths by blast
  moreover have "nths (data p) ?S = nths (data p) (?S \<inter> {..<length (data p)})"
    by (rule nths_inter_range [symmetric])
  moreover have "set (nths (data p) ?S) = {data p ! j | j. j < length (data p) \<and> j \<in> ?S}"
    by (rule set_nths)
  ultimately show ?thesis unfolding Let_def by blast
qed

text \<open>Row 0 toggled on from the stale set {7}, and row 1 toggled off from {0, 1}, on two rows.\<close>

theorem handleSelectRow_payload_witness:
  "selectedRows (handleSelectRow
      (\<lparr>data = [obj [(''id'', JNumber 1)], obj [(''id'', JNumber 2)]],
        columns = [], loading = False, selectable = True, onRowSelect = True,
        className = [], emptyMessage = None\<rparr> :: (jsval, unit) props) 0 True
      (initial_state\<lparr>selectedRows := {7}\<rparr>)) = {0, 7} \<and>
   calls (handleSelectRow
      (\<lparr>data = [obj [(''id'', JNumber 1)], obj [(''id'', JNumber 2)]],
        columns = [], loading = False, selectable = True, onRowSelect = True,
        className = [], emptyMessage = None\<rparr> :: (jsval, unit) props) 0 True
      (initial_state\<lparr>selectedRows := {7}\<rparr>)) = [[obj [(''id'', JNumber 1)]]] \<and>
   calls (handleSelectRow
      (\<lparr>data = [obj [(''id'', JNumber 1)], obj [(''id'', JNumber 2)]],
        columns = [], loading = False, selectable = True, onRowSelect = True,
        className = [], emptyMessage = None\<rparr> :: (jsval, unit) props) 1 False
      (initial_state\<lparr>selectedRows := {0, 1}\<rparr>)) = [[obj [(''id'', JNumber 1)]]]"
proof -
  let ?p = "\<lparr>data = [obj [(''id'', JNumber 1)], obj [(''id'', JNumber 2)]],
        columns = [], loading = False, selectable = True, onRowSelect = True,
        className = [], emptyMessage = None\<rparr> :: (jsval, unit) props"
  have h: "onRowSelect ?p" by simp
  let ?s1 = "initial_state\<lparr>selectedRows := {7}\<rparr> :: jsval state"
  let ?s2 = "initial_state\<lparr>selectedRows := {0, 1}\<rparr> :: jsval state"
  note t1 = handleSelectRow_payload [OF h, of True 0 ?s1, unfolded Let_def]
  note t2 = handleSelectRow_payload [OF h, of False 1 ?s2, unfolded Let_def]
  have "selectedRows (handleSelectRow ?p 0 True ?s1) = {0, 7}"
    using t1 [THEN conjunct1] by simp
  moreover have "calls (handleSelectRow ?p 0 True ?s1) = [[obj [(''id'', JNumber 1)]]]"
    using t1 [THEN conjunct2, THEN conjunct1] by (simp add: initial_state_def nths_Cons)
  moreover have "calls (handleSelectRow ?p 1 False ?s2) = [[obj [(''id'', JNumber 1)]]]"
    using t2 [THEN conjunct2, THEN conjunct1] by (simp add: initial_state_def nths_Cons)
  ultimately show ?thesis by simp
qed

subsection \<open>Presentation\<close>

text \<open>
  Claim C7. For every input, when the loading flag is set the component renders the
  loading skeleton with exactly the five placeholder rows 0 to 4, whatever the data
  (hence neither the empty nor the populated state); and the empty state is rendered
  exactly when the loading flag is unset and the data sequence has length zero.
\<close>

theorem DataTable_state:
  "(loading p \<longrightarrow> DataTable h p s = LoadingSkeleton [0, 1, 2, 3, 4]) \<and>
   ((\<exists>m. DataTable h p s = EmptyState m) = (\<not> loading p \<and> length (data p) = 0))"
proof -
  have "[0..<5] = [0, 1, 2, 3, 4::nat]" by (simp add: upt_rec)
  then show ?thesis
    by (auto simp: DataTable_def Let_def)
qed

text \<open>Loading with data present, and not loading without data.\<close>

theorem DataTable_state_witness:
  "DataTable v8_host
      (\<lparr>data = [obj [(''id'', JNumber 1)], obj [(''id'', JNumber 2)]],
        columns = [], loading = True, selectable = False, onRowSelect = False,
        className = [], emptyMessage = None\<rparr> :: (jsval, unit) props) initial_state
     = LoadingSkeleton [0, 1, 2, 3, 4] \<and>
   (\<exists>m. DataTable v8_host
      (\<lparr>data = [], columns = [], loading = False, selectable = False, onRowSelect = False,
        className = [], emptyMessage = None\<rparr> :: (jsval, unit) props) initial_state
     = EmptyState m)"
proof -
  let ?p = "\<lparr>data = [obj [(''id'', JNumber 1)], obj [(''id'', JNumber 2)]],
        columns = [], loading = True, selectable = False, onRowSelect = False,
        className = [], emptyMessage = None\<rparr> :: (jsval, unit) props"
  let ?q = "\<lparr>data = [], columns = [], loading = False, selectable = False, onRowSelect = False,
        className = [], emptyMessage = None\<rparr> :: (jsval, unit) props"
  have "loading ?p" by simp
  moreover have "\<not> loading ?q \<and> length (data ?q) = 0" by simp
  ultimately show ?thesis
    using DataTable_state [of ?p v8_host initial_state] DataTable_state [of ?q v8_host initial_state]
    by blast
qed




end
